theory Spec2Isabelle
  imports Complex_Main "HOL-Library.Multiset"
begin

section \<open>The sampled stat cache of LyraPerformanceStatSubsystem.h\<close>

text \<open>
  The header \<^verbatim>\<open>Source/LyraGame/Performance/LyraPerformanceStatSubsystem.h\<close> defines
  \<^verbatim>\<open>FSampledStatCache\<close>, a ring buffer of samples, and declares
  \<^verbatim>\<open>FLyraPerformanceStatCache\<close>, which keeps one such buffer per displayable stat.

  Conventions of the embedding:
  \<^item> the \<^verbatim>\<open>int32\<close> members are HOL integers; the only increment of the header,
    \<^verbatim>\<open>CurrentSampleIndex++\<close>, stays below \<^verbatim>\<open>Samples.Num()\<close> on every well-formed
    buffer (lemma \<open>RecordSample_no_overflow\<close>), so no wrap-around is reachable;
  \<^item> the sample type \<^verbatim>\<open>double\<close> is a type parameter with a zero (the zero-filled slot
    and the literal \<^verbatim>\<open>0.0\<close>). Its arithmetic is a parameter too: \<^verbatim>\<open>GetAverage\<close> adds,
    divides and converts with the operations of a \<open>double_ops\<close>, and
    \<^verbatim>\<open>GetMin\<close>/\<^verbatim>\<open>GetMax\<close> compare with a given \<open><\<close>. No law is assumed of these
    operations, so what is proved holds of IEEE binary64 with its rounding, its
    infinities and its NaN;
  \<^item> a failed engine assertion and a null dereference are values of \<open>error\<close>; every
    fallible operation returns \<open>error + 'a\<close> with \<open>Inl\<close> the failure.
\<close>

subsection \<open>Engine primitives used by the header\<close>

datatype error = CheckFailed | RangeCheckFailed | NullDereference

text \<open>
  Modelled from the spec: the engine macro \<^verbatim>\<open>check\<close> (declared outside the header).
  The spec words it as "Fails fatally if capacity <= 0" and "fatal (must not silently
  clamp)": a false condition stops the program, a true one has no effect.
\<close>

definition check :: "bool \<Rightarrow> error + unit" where
  "check cond = (if cond then Inr () else Inl CheckFailed)"

text \<open>
  \<^verbatim>\<open>TArray<double>\<close> is a list. \<^verbatim>\<open>Num\<close> is its length, \<^verbatim>\<open>Empty\<close> removes every
  element, \<^verbatim>\<open>AddZeroed(n)\<close> appends \<open>n\<close> zero elements, and \<^verbatim>\<open>operator[]\<close>
  asserts \<^verbatim>\<open>0 <= Index < Num\<close> before it reads or writes the slot.
\<close>

definition TArray_Num :: "'a list \<Rightarrow> int" where
  "TArray_Num xs = int (length xs)"

definition TArray_Empty :: "'a list \<Rightarrow> 'a list" where
  "TArray_Empty xs = []"

definition TArray_AddZeroed :: "'a::zero list \<Rightarrow> int \<Rightarrow> 'a list" where
  "TArray_AddZeroed xs n = xs @ replicate (nat n) 0"

definition TArray_index :: "'a list \<Rightarrow> int \<Rightarrow> error + 'a" where
  "TArray_index xs i =
     (if 0 \<le> i \<and> i < TArray_Num xs then Inr (xs ! nat i) else Inl RangeCheckFailed)"

definition TArray_assign :: "'a list \<Rightarrow> int \<Rightarrow> 'a \<Rightarrow> error + 'a list" where
  "TArray_assign xs i v =
     (if 0 \<le> i \<and> i < TArray_Num xs then Inr (xs[nat i := v]) else Inl RangeCheckFailed)"

text \<open>
  The operations on \<^verbatim>\<open>double\<close> that the header uses: \<^verbatim>\<open>+\<close> (in \<^verbatim>\<open>Sum += Stat\<close>),
  \<^verbatim>\<open>/\<close>, \<^verbatim>\<open><\<close> (inside the two algorithms below) and
  \<^verbatim>\<open>static_cast<double>\<close> from \<^verbatim>\<open>int32\<close>.
\<close>

record 'd double_ops =
  dbl_add :: "'d \<Rightarrow> 'd \<Rightarrow> 'd"
  dbl_div :: "'d \<Rightarrow> 'd \<Rightarrow> 'd"
  dbl_less :: "'d \<Rightarrow> 'd \<Rightarrow> bool"
  dbl_of_int32 :: "int \<Rightarrow> 'd"

text \<open>
  \<^verbatim>\<open>Algo::MinElement\<close> and \<^verbatim>\<open>Algo::MaxElement\<close> walk the range once and keep a
  pointer to the best element so far. \<^verbatim>\<open>MinElement\<close> replaces it by an element
  \<open>Elem\<close> when \<^verbatim>\<open>Elem < *Result\<close>, \<^verbatim>\<open>MaxElement\<close> when \<^verbatim>\<open>*Result < Elem\<close>; the pointer
  starts null and stays null on an empty range. The pointer is \<open>'a option\<close> here,
  since the header only dereferences it.
\<close>

fun MinElement_loop :: "('a \<Rightarrow> 'a \<Rightarrow> bool) \<Rightarrow> 'a list \<Rightarrow> 'a option \<Rightarrow> 'a option" where
  "MinElement_loop lt [] Result = Result"
| "MinElement_loop lt (Elem # Rest) Result =
     MinElement_loop lt Rest
       (case Result of
          None \<Rightarrow> Some Elem
        | Some r \<Rightarrow> if lt Elem r then Some Elem else Some r)"

definition Algo_MinElement :: "('a \<Rightarrow> 'a \<Rightarrow> bool) \<Rightarrow> 'a list \<Rightarrow> 'a option" where
  "Algo_MinElement lt Rng = MinElement_loop lt Rng None"

fun MaxElement_loop :: "('a \<Rightarrow> 'a \<Rightarrow> bool) \<Rightarrow> 'a list \<Rightarrow> 'a option \<Rightarrow> 'a option" where
  "MaxElement_loop lt [] Result = Result"
| "MaxElement_loop lt (Elem # Rest) Result =
     MaxElement_loop lt Rest
       (case Result of
          None \<Rightarrow> Some Elem
        | Some r \<Rightarrow> if lt r Elem then Some Elem else Some r)"

definition Algo_MaxElement :: "('a \<Rightarrow> 'a \<Rightarrow> bool) \<Rightarrow> 'a list \<Rightarrow> 'a option" where
  "Algo_MaxElement lt Rng = MaxElement_loop lt Rng None"

subsection \<open>FSampledStatCache\<close>

record 'a FSampledStatCache =
  SampleSize :: int
  CurrentSampleIndex :: int
  Samples :: "'a list"

text \<open>
  The constructor: the member initialiser stores \<^verbatim>\<open>InSampleSize\<close>, the assertion
  follows, then the array is emptied and zero-filled. \<^verbatim>\<open>CurrentSampleIndex\<close> has the
  default member initialiser \<open>0\<close>.
\<close>

definition FSampledStatCache_ctor :: "int \<Rightarrow> error + ('a::zero) FSampledStatCache" where
  "FSampledStatCache_ctor InSampleSize =
     (case check (InSampleSize > 0) of
        Inl e \<Rightarrow> Inl e
      | Inr _ \<Rightarrow>
          Inr \<lparr> SampleSize = InSampleSize,
                CurrentSampleIndex = 0,
                Samples = TArray_AddZeroed (TArray_Empty []) InSampleSize \<rparr>)"

definition RecordSample :: "'a \<Rightarrow> 'a FSampledStatCache \<Rightarrow> error + 'a FSampledStatCache" where
  "RecordSample Sample c =
     (case TArray_assign (Samples c) (CurrentSampleIndex c) Sample of
        Inl e \<Rightarrow> Inl e
      | Inr S \<Rightarrow>
          (let i = CurrentSampleIndex c + 1
           in Inr (c \<lparr> Samples := S,
                       CurrentSampleIndex := (if i \<ge> TArray_Num S then 0 else i) \<rparr>)))"

definition GetCurrentCachedStat :: "'a FSampledStatCache \<Rightarrow> error + 'a" where
  "GetCurrentCachedStat c = TArray_index (Samples c) (CurrentSampleIndex c)"

definition GetLastCachedStat :: "'a FSampledStatCache \<Rightarrow> error + 'a" where
  "GetLastCachedStat c =
     (let LastIndex = CurrentSampleIndex c - 1;
          LastIndex = (if LastIndex < 0 then TArray_Num (Samples c) - 1 else LastIndex)
      in TArray_index (Samples c) LastIndex)"

text \<open>
  \<^verbatim>\<open>ForEachCurrentSample\<close>: the visitor \<open>func\<close> acts on a state of its own (what the
  C++ lambda captures by reference); the loop counts \<open>i\<close> up to \<^verbatim>\<open>SampleSize\<close> and
  wraps \<open>Index\<close> when it reaches \<^verbatim>\<open>SampleSize\<close>.
\<close>

function ForEachCurrentSample_loop ::
  "'a FSampledStatCache \<Rightarrow> ('a \<Rightarrow> 's \<Rightarrow> 's) \<Rightarrow> int \<Rightarrow> int \<Rightarrow> 's \<Rightarrow> error + 's" where
  "ForEachCurrentSample_loop c func i Index st =
     (if i < SampleSize c then
        (case TArray_index (Samples c) Index of
           Inl e \<Rightarrow> Inl e
         | Inr Stat \<Rightarrow>
             ForEachCurrentSample_loop c func (i + 1)
               (if Index + 1 = SampleSize c then 0 else Index + 1) (func Stat st))
      else Inr st)"
  by pat_completeness auto
termination
  by (relation "measure (\<lambda>(c, func, i, Index, st). nat (SampleSize c - i))") auto

declare ForEachCurrentSample_loop.simps [simp del]

definition ForEachCurrentSample ::
  "'a FSampledStatCache \<Rightarrow> ('a \<Rightarrow> 's \<Rightarrow> 's) \<Rightarrow> 's \<Rightarrow> error + 's" where
  "ForEachCurrentSample c func st =
     ForEachCurrentSample_loop c func 0 (CurrentSampleIndex c) st"

definition GetSampleSize :: "'a FSampledStatCache \<Rightarrow> int" where
  "GetSampleSize c = SampleSize c"

definition GetAverage :: "'a double_ops \<Rightarrow> ('a::zero) FSampledStatCache \<Rightarrow> error + 'a" where
  "GetAverage ops c =
     (case ForEachCurrentSample c (\<lambda>Stat Sum'. dbl_add ops Sum' Stat) 0 of
        Inl e \<Rightarrow> Inl e
      | Inr Sum' \<Rightarrow> Inr (dbl_div ops Sum' (dbl_of_int32 ops (SampleSize c))))"

definition GetMin :: "('a \<Rightarrow> 'a \<Rightarrow> bool) \<Rightarrow> 'a FSampledStatCache \<Rightarrow> error + 'a" where
  "GetMin lt c =
     (case Algo_MinElement lt (Samples c) of
        None \<Rightarrow> Inl NullDereference
      | Some v \<Rightarrow> Inr v)"

definition GetMax :: "('a \<Rightarrow> 'a \<Rightarrow> bool) \<Rightarrow> 'a FSampledStatCache \<Rightarrow> error + 'a" where
  "GetMax lt c =
     (case Algo_MaxElement lt (Samples c) of
        None \<Rightarrow> Inl NullDereference
      | Some v \<Rightarrow> Inr v)"

subsection \<open>Well-formed buffers and call sequences\<close>

text \<open>
  The class invariant: the array has \<^verbatim>\<open>SampleSize\<close> slots, \<^verbatim>\<open>SampleSize\<close> is positive
  and the write index lies inside the array.
\<close>

definition cache_inv :: "'a FSampledStatCache \<Rightarrow> bool" where
  "cache_inv c =
     (0 < SampleSize c \<and> TArray_Num (Samples c) = SampleSize c \<and>
      0 \<le> CurrentSampleIndex c \<and> CurrentSampleIndex c < SampleSize c)"

text \<open>A caller recording a sequence of samples, one \<^verbatim>\<open>RecordSample\<close> call each.\<close>

fun RecordSamples :: "'a list \<Rightarrow> 'a FSampledStatCache \<Rightarrow> error + 'a FSampledStatCache" where
  "RecordSamples [] c = Inr c"
| "RecordSamples (v # vs) c =
     (case RecordSample v c of
        Inl e \<Rightarrow> Inl e
      | Inr c' \<Rightarrow> RecordSamples vs c')"

text \<open>A caller constructing a buffer and then recording a sequence of samples.\<close>

definition construct_then_record :: "int \<Rightarrow> 'a list \<Rightarrow> error + ('a::zero) FSampledStatCache" where
  "construct_then_record InSampleSize vs =
     (case FSampledStatCache_ctor InSampleSize of
        Inl e \<Rightarrow> Inl e
      | Inr c \<Rightarrow> RecordSamples vs c)"

text \<open>
  The values \<^verbatim>\<open>ForEachCurrentSample\<close> hands to its visitor, in the order of the calls:
  the traversal run with a visitor that appends each value to a list.
\<close>

definition visited :: "'a FSampledStatCache \<Rightarrow> error + 'a list" where
  "visited c = ForEachCurrentSample c (\<lambda>Stat seen. seen @ [Stat]) []"

text \<open>The array read from the write index on, wrapping around once.\<close>

definition window :: "'a FSampledStatCache \<Rightarrow> 'a list" where
  "window c = rotate (nat (CurrentSampleIndex c)) (Samples c)"

subsection \<open>The const methods as calls on the object\<close>

text \<open>
  Every method of \<^verbatim>\<open>FSampledStatCache\<close> but \<^verbatim>\<open>RecordSample\<close> is declared \<^verbatim>\<open>const\<close>.
  To state what a call leaves behind, each of them is translated once more, as a call:
  the body runs on the object and returns its value together with the object as the
  body leaves it. The object is handed from statement to statement and from a method to
  the method it calls, so a body that assigned a member would return another object.
  The visitor of \<^verbatim>\<open>ForEachCurrentSample\<close> receives each sample by value and acts on a
  state of its own.
\<close>

definition GetCurrentCachedStat_call ::
  "'a FSampledStatCache \<Rightarrow> error + ('a \<times> 'a FSampledStatCache)" where
  "GetCurrentCachedStat_call c =
     (case TArray_index (Samples c) (CurrentSampleIndex c) of
        Inl e \<Rightarrow> Inl e
      | Inr v \<Rightarrow> Inr (v, c))"

definition GetLastCachedStat_call ::
  "'a FSampledStatCache \<Rightarrow> error + ('a \<times> 'a FSampledStatCache)" where
  "GetLastCachedStat_call c =
     (let LastIndex = CurrentSampleIndex c - 1;
          LastIndex = (if LastIndex < 0 then TArray_Num (Samples c) - 1 else LastIndex)
      in case TArray_index (Samples c) LastIndex of
           Inl e \<Rightarrow> Inl e
         | Inr v \<Rightarrow> Inr (v, c))"

function ForEachCurrentSample_call_loop ::
  "('a \<Rightarrow> 's \<Rightarrow> 's) \<Rightarrow> int \<Rightarrow> int \<Rightarrow> 's \<Rightarrow> 'a FSampledStatCache \<Rightarrow>
     error + ('s \<times> 'a FSampledStatCache)" where
  "ForEachCurrentSample_call_loop func i Index st c =
     (if i < SampleSize c then
        (case TArray_index (Samples c) Index of
           Inl e \<Rightarrow> Inl e
         | Inr Stat \<Rightarrow>
             ForEachCurrentSample_call_loop func (i + 1)
               (if Index + 1 = SampleSize c then 0 else Index + 1) (func Stat st) c)
      else Inr (st, c))"
  by pat_completeness auto
termination
  by (relation "measure (\<lambda>(func, i, Index, st, c). nat (SampleSize c - i))") auto

declare ForEachCurrentSample_call_loop.simps [simp del]

definition ForEachCurrentSample_call ::
  "('a \<Rightarrow> 's \<Rightarrow> 's) \<Rightarrow> 's \<Rightarrow> 'a FSampledStatCache \<Rightarrow> error + ('s \<times> 'a FSampledStatCache)" where
  "ForEachCurrentSample_call func st c =
     ForEachCurrentSample_call_loop func 0 (CurrentSampleIndex c) st c"

definition GetSampleSize_call ::
  "'a FSampledStatCache \<Rightarrow> error + (int \<times> 'a FSampledStatCache)" where
  "GetSampleSize_call c = Inr (SampleSize c, c)"

definition GetAverage_call ::
  "'a double_ops \<Rightarrow> ('a::zero) FSampledStatCache \<Rightarrow> error + ('a \<times> 'a FSampledStatCache)" where
  "GetAverage_call ops c =
     (case ForEachCurrentSample_call (\<lambda>Stat Sum'. dbl_add ops Sum' Stat) 0 c of
        Inl e \<Rightarrow> Inl e
      | Inr (Sum', c') \<Rightarrow> Inr (dbl_div ops Sum' (dbl_of_int32 ops (SampleSize c')), c'))"

definition GetMin_call ::
  "('a \<Rightarrow> 'a \<Rightarrow> bool) \<Rightarrow> 'a FSampledStatCache \<Rightarrow> error + ('a \<times> 'a FSampledStatCache)" where
  "GetMin_call lt c =
     (case Algo_MinElement lt (Samples c) of
        None \<Rightarrow> Inl NullDereference
      | Some v \<Rightarrow> Inr (v, c))"

definition GetMax_call ::
  "('a \<Rightarrow> 'a \<Rightarrow> bool) \<Rightarrow> 'a FSampledStatCache \<Rightarrow> error + ('a \<times> 'a FSampledStatCache)" where
  "GetMax_call lt c =
     (case Algo_MaxElement lt (Samples c) of
        None \<Rightarrow> Inl NullDereference
      | Some v \<Rightarrow> Inr (v, c))"

subsection \<open>Method calls on a buffer\<close>

text \<open>
  A caller's view of the public methods: a call names the method, returns a value and
  leaves the object in a state. \<^verbatim>\<open>ForEachCurrentSample\<close> is called with the visitor of
  \<open>visited\<close>, which collects the samples it is handed.
\<close>

datatype Query =
    Q_GetCurrentCachedStat
  | Q_GetLastCachedStat
  | Q_ForEachCurrentSample
  | Q_GetSampleSize
  | Q_GetAverage
  | Q_GetMin
  | Q_GetMax

datatype 'a Returned = Nothing | Stat 'a | Size int | Seen "'a list"

fun call ::
  "'a double_ops \<Rightarrow> Query \<Rightarrow> ('a::zero) FSampledStatCache \<Rightarrow>
     error + ('a Returned \<times> 'a FSampledStatCache)" where
  "call ops Q_GetCurrentCachedStat c = map_sum id (map_prod Stat id) (GetCurrentCachedStat_call c)"
| "call ops Q_GetLastCachedStat c = map_sum id (map_prod Stat id) (GetLastCachedStat_call c)"
| "call ops Q_ForEachCurrentSample c =
     map_sum id (map_prod Seen id) (ForEachCurrentSample_call (\<lambda>Stat seen. seen @ [Stat]) [] c)"
| "call ops Q_GetSampleSize c = map_sum id (map_prod Size id) (GetSampleSize_call c)"
| "call ops Q_GetAverage c = map_sum id (map_prod Stat id) (GetAverage_call ops c)"
| "call ops Q_GetMin c = map_sum id (map_prod Stat id) (GetMin_call (dbl_less ops) c)"
| "call ops Q_GetMax c = map_sum id (map_prod Stat id) (GetMax_call (dbl_less ops) c)"

datatype 'a Method = Record 'a | Ask Query

fun invoke ::
  "'a double_ops \<Rightarrow> 'a Method \<Rightarrow> ('a::zero) FSampledStatCache \<Rightarrow>
     error + ('a Returned \<times> 'a FSampledStatCache)" where
  "invoke ops (Record v) c = map_sum id (\<lambda>c'. (Nothing, c')) (RecordSample v c)"
| "invoke ops (Ask q) c = call ops q c"

fun invoke_all ::
  "'a double_ops \<Rightarrow> 'a Method list \<Rightarrow> ('a::zero) FSampledStatCache \<Rightarrow>
     error + ('a Returned list \<times> 'a FSampledStatCache)" where
  "invoke_all ops [] c = Inr ([], c)"
| "invoke_all ops (m # ms) c =
     (case invoke ops m c of
        Inl e \<Rightarrow> Inl e
      | Inr (a, c') \<Rightarrow>
          (case invoke_all ops ms c' of
             Inl e \<Rightarrow> Inl e
           | Inr (as, c'') \<Rightarrow> Inr (a # as, c'')))"

subsection \<open>FLyraPerformanceStatCache\<close>

text \<open>
  The header declares \<^verbatim>\<open>GetCachedStat\<close> and \<^verbatim>\<open>GetCachedStatData\<close> and the member
  \<^verbatim>\<open>PerfStateCache\<close>, a \<^verbatim>\<open>TMap\<close> from the stat enumeration to a buffer; the bodies of
  the two methods are not part of the header. The map is a partial function from keys to
  buffers, and a pointer to a buffer that may be null is an \<open>option\<close>.
\<close>

record ('k, 'a) FLyraPerformanceStatCache =
  PerfStateCache :: "'k \<rightharpoonup> 'a FSampledStatCache"

text \<open>
  Modelled from the spec: the body of \<^verbatim>\<open>FLyraPerformanceStatCache::GetCachedStatData\<close>.
  The spec: "returns a non-owning reference to the buffer for richer queries
  (average/min/max/iteration), or an absent/null result if \<open>kind\<close> is untracked".
\<close>

definition GetCachedStatData ::
  "('k, 'a) FLyraPerformanceStatCache \<Rightarrow> 'k \<Rightarrow> 'a FSampledStatCache option" where
  "GetCachedStatData r kind = PerfStateCache r kind"

text \<open>
  Modelled from the spec: the body of \<^verbatim>\<open>FLyraPerformanceStatCache::GetCachedStat\<close>.
  The spec: "returns \<open>currentValue()\<close> of the buffer for \<open>kind\<close>, or \<open>0.0\<close> if \<open>kind\<close>
  is untracked. No error raised for unknown keys".
\<close>

definition GetCachedStat ::
  "('k, 'a::zero) FLyraPerformanceStatCache \<Rightarrow> 'k \<Rightarrow> error + 'a" where
  "GetCachedStat r kind =
     (case GetCachedStatData r kind of
        None \<Rightarrow> Inr 0
      | Some Cache \<Rightarrow> GetCurrentCachedStat Cache)"

text \<open>
  Modelled from the spec: the two bodies once more, as calls on the registry that
  return the registry they leave. The spec: "querying an absent key never creates one
  implicitly and returns a defined default (0.0) rather than failing"; so the lookup
  inserts nothing. The buffer found lives inside the map: the buffer method called on it
  runs on the map's own buffer, and the buffer it leaves is the map's entry afterwards.
\<close>

definition GetCachedStatData_call ::
  "('k, 'a) FLyraPerformanceStatCache \<Rightarrow> 'k \<Rightarrow>
     error + ('a FSampledStatCache option \<times> ('k, 'a) FLyraPerformanceStatCache)" where
  "GetCachedStatData_call r kind = Inr (PerfStateCache r kind, r)"

definition GetCachedStat_call ::
  "('k, 'a::zero) FLyraPerformanceStatCache \<Rightarrow> 'k \<Rightarrow>
     error + ('a \<times> ('k, 'a) FLyraPerformanceStatCache)" where
  "GetCachedStat_call r kind =
     (case GetCachedStatData_call r kind of
        Inl e \<Rightarrow> Inl e
      | Inr (None, r') \<Rightarrow> Inr (0, r')
      | Inr (Some Cache, r') \<Rightarrow>
          (case GetCurrentCachedStat_call Cache of
             Inl e \<Rightarrow> Inl e
           | Inr (v, Cache') \<Rightarrow>
               Inr (v, r' \<lparr> PerfStateCache := (PerfStateCache r')(kind \<mapsto> Cache') \<rparr>)))"

text \<open>
  Calls on the registry through its query interface. Both methods are declared
  \<^verbatim>\<open>const\<close> and \<^verbatim>\<open>GetCachedStatData\<close> returns a pointer to \<^verbatim>\<open>const\<close>, so a holder of
  that pointer can call the \<^verbatim>\<open>const\<close> methods of the buffer only; calling one through
  a null pointer is an error. Each call returns its reply and the registry it leaves.
\<close>

datatype 'k Request =
    Req_GetCachedStat 'k
  | Req_GetCachedStatData 'k
  | Req_Query 'k Query

datatype 'a Reply =
    Value 'a
  | Data "'a FSampledStatCache option"
  | Answer "'a Returned"

fun serve ::
  "'a double_ops \<Rightarrow> 'k Request \<Rightarrow> ('k, 'a::zero) FLyraPerformanceStatCache \<Rightarrow>
     error + ('a Reply \<times> ('k, 'a) FLyraPerformanceStatCache)" where
  "serve ops (Req_GetCachedStat kind) r =
     map_sum id (map_prod Value id) (GetCachedStat_call r kind)"
| "serve ops (Req_GetCachedStatData kind) r =
     map_sum id (map_prod Data id) (GetCachedStatData_call r kind)"
| "serve ops (Req_Query kind q) r =
     (case GetCachedStatData_call r kind of
        Inl e \<Rightarrow> Inl e
      | Inr (None, r') \<Rightarrow> Inl NullDereference
      | Inr (Some Cache, r') \<Rightarrow>
          (case call ops q Cache of
             Inl e \<Rightarrow> Inl e
           | Inr (a, Cache') \<Rightarrow>
               Inr (Answer a, r' \<lparr> PerfStateCache := (PerfStateCache r')(kind \<mapsto> Cache') \<rparr>)))"

fun serve_all ::
  "'a double_ops \<Rightarrow> 'k Request list \<Rightarrow> ('k, 'a::zero) FLyraPerformanceStatCache \<Rightarrow>
     error + ('a Reply list \<times> ('k, 'a) FLyraPerformanceStatCache)" where
  "serve_all ops [] r = Inr ([], r)"
| "serve_all ops (q # qs) r =
     (case serve ops q r of
        Inl e \<Rightarrow> Inl e
      | Inr (a, r') \<Rightarrow>
          (case serve_all ops qs r' of
             Inl e \<Rightarrow> Inl e
           | Inr (as, r'') \<Rightarrow> Inr (a # as, r'')))"

subsection \<open>Orders and instances used in the statements\<close>

text \<open>
  The comparison \<open>lt\<close> orders the values of a list totally: it is transitive on them
  and any two of them are equal or related one way or the other. IEEE \<^verbatim>\<open><\<close> does so
  on values none of which is a NaN and which do not contain both zeros.
\<close>

definition totally_ordered :: "('a \<Rightarrow> 'a \<Rightarrow> bool) \<Rightarrow> 'a list \<Rightarrow> bool" where
  "totally_ordered lt xs =
     ((\<forall>x\<in>set xs. \<forall>y\<in>set xs. \<forall>z\<in>set xs. lt x y \<and> lt y z \<longrightarrow> lt x z) \<and>
      (\<forall>x\<in>set xs. \<forall>y\<in>set xs. lt x y \<or> x = y \<or> lt y x))"


text \<open>An instance of the operations for concrete runs: the reals, computed exactly.\<close>

definition real_ops :: "real double_ops" where
  "real_ops =
     \<lparr> dbl_add = (\<lambda>a b. a + b), dbl_div = (\<lambda>a b. a / b), dbl_less = (\<lambda>a b. a < b),
       dbl_of_int32 = real_of_int \<rparr>"

text \<open>
  Samples that are a number or a NaN, for runs with a NaN in the buffer. The zero-filled
  slot is the number 0, and \<open>nan_less\<close> is \<^verbatim>\<open><\<close> as IEEE defines it on a NaN: false
  whenever an operand is a NaN.
\<close>

datatype number_or_nan = NaN | Num real

instantiation number_or_nan :: zero
begin

definition zero_number_or_nan :: number_or_nan where
  "zero_number_or_nan = Num 0"

instance ..

end


section \<open>Properties\<close>

subsection \<open>Construction and recording\<close>

lemma ctor_ok:
  "0 < n \<Longrightarrow> FSampledStatCache_ctor n =
     Inr \<lparr> SampleSize = n, CurrentSampleIndex = 0, Samples = replicate (nat n) 0 \<rparr>"
  by (simp add: FSampledStatCache_ctor_def check_def TArray_AddZeroed_def TArray_Empty_def)

lemma ctor_fails: "n \<le> 0 \<Longrightarrow> FSampledStatCache_ctor n = Inl CheckFailed"
  by (simp add: FSampledStatCache_ctor_def check_def)

lemma RecordSample_ok:
  assumes "cache_inv c"
  shows "RecordSample v c =
     Inr (c \<lparr> Samples := (Samples c)[nat (CurrentSampleIndex c) := v],
               CurrentSampleIndex :=
                 (if CurrentSampleIndex c + 1 = SampleSize c then 0
                  else CurrentSampleIndex c + 1) \<rparr>)"
  using assms
  by (auto simp: RecordSample_def TArray_assign_def TArray_Num_def cache_inv_def Let_def)

lemma RecordSample_inv:
  assumes "cache_inv c" and "RecordSample v c = Inr c'"
  shows "cache_inv c'"
  using assms(2) assms(1) unfolding RecordSample_ok [OF assms(1)]
  by (auto simp: cache_inv_def TArray_Num_def)

lemma window_RecordSample:
  assumes "cache_inv c" and "RecordSample v c = Inr c'"
  shows "window c' = tl (window c) @ [v]"
proof -
  define S where "S = Samples c"
  define i where "i = nat (CurrentSampleIndex c)"
  have i: "i < length S" and ne: "S \<noteq> []"
    using assms(1) by (auto simp: cache_inv_def TArray_Num_def S_def i_def)
  have old: "window c = S ! i # drop (Suc i) S @ take i S"
    using i by (simp add: window_def S_def [symmetric] i_def [symmetric] rotate_drop_take Cons_nth_drop_Suc)
  show ?thesis
  proof (cases "CurrentSampleIndex c + 1 = SampleSize c")
    case True
    then have last: "Suc i = length S"
      using assms(1) by (auto simp: cache_inv_def TArray_Num_def S_def i_def)
    have "c' = c \<lparr> Samples := S[i := v], CurrentSampleIndex := 0 \<rparr>"
      using assms(2) True unfolding RecordSample_ok [OF assms(1)] by (simp add: S_def i_def)
    then have "window c' = S[i := v]" by (simp add: window_def)
    also have "\<dots> = take i S @ [v]"
      using last i by (simp add: upd_conv_take_nth_drop)
    finally show ?thesis using old last by simp
  next
    case False
    then have "c' = c \<lparr> Samples := S[i := v], CurrentSampleIndex := CurrentSampleIndex c + 1 \<rparr>"
      using assms(2) unfolding RecordSample_ok [OF assms(1)] by (simp add: S_def i_def)
    moreover have "nat (CurrentSampleIndex c + 1) = Suc i"
      using assms(1) by (auto simp: cache_inv_def i_def)
    moreover have "Suc i < length S"
      using assms(1) False by (auto simp: cache_inv_def TArray_Num_def S_def i_def)
    ultimately have "window c' = drop (Suc i) (S[i := v]) @ take (Suc i) (S[i := v])"
      by (simp add: window_def rotate_drop_take)
    also have "\<dots> = drop (Suc i) S @ take i S @ [v]"
      using i by (simp add: take_Suc_conv_app_nth)
    finally show ?thesis using old by simp
  qed
qed

subsection \<open>The traversal\<close>

lemma window_length: "length (window c) = length (Samples c)"
  by (simp add: window_def)

lemma window_nth:
  assumes "cache_inv c" and "0 \<le> i" and "i < SampleSize c"
  shows "window c ! nat i = Samples c ! nat ((CurrentSampleIndex c + i) mod SampleSize c)"
proof -
  have len: "int (length (Samples c)) = SampleSize c" and idx: "0 \<le> CurrentSampleIndex c"
    using assms(1) by (auto simp: cache_inv_def TArray_Num_def)
  have "window c ! nat i =
      Samples c ! ((nat (CurrentSampleIndex c) + nat i) mod length (Samples c))"
    unfolding window_def using assms len by (intro nth_rotate) linarith
  also have "(nat (CurrentSampleIndex c) + nat i) mod length (Samples c) =
      nat ((CurrentSampleIndex c + i) mod SampleSize c)"
  proof -
    have l: "length (Samples c) = nat (SampleSize c)" using len by linarith
    have "nat ((CurrentSampleIndex c + i) mod SampleSize c) =
        nat (CurrentSampleIndex c + i) mod nat (SampleSize c)"
      using assms idx by (intro nat_mod_distrib) simp_all
    then show ?thesis using assms(2) idx l by (simp add: nat_add_distrib)
  qed
  finally show ?thesis .
qed

lemma wrap_step:
  fixes Index n :: int
  assumes "0 \<le> Index" "Index < n"
  shows "(if Index + 1 = n then 0 else Index + 1) = (Index + 1) mod n"
  using assms by auto

lemma loop_window:
  "cache_inv c \<Longrightarrow> 0 \<le> i \<Longrightarrow> i \<le> SampleSize c \<Longrightarrow>
     Index = (CurrentSampleIndex c + i) mod SampleSize c \<Longrightarrow>
     ForEachCurrentSample_loop c f i Index st =
       Inr (foldl (\<lambda>s v. f v s) st (drop (nat i) (window c)))"
proof (induction c f i Index st rule: ForEachCurrentSample_loop.induct)
  case (1 c f i Index st)
  note inv = "1.prems"(1) and i0 = "1.prems"(2) and iC = "1.prems"(3) and Ix = "1.prems"(4)
  have pos: "0 < SampleSize c" and len: "int (length (Samples c)) = SampleSize c"
    using inv by (auto simp: cache_inv_def TArray_Num_def)
  show ?case
  proof (cases "i < SampleSize c")
    case False
    with iC len have "length (window c) \<le> nat i"
      by (simp add: window_length)
    with False show ?thesis
      by (subst ForEachCurrentSample_loop.simps) simp
  next
    case True
    have rng: "0 \<le> Index" "Index < SampleSize c"
      using pos Ix by simp_all
    have rd: "TArray_index (Samples c) Index = Inr (Samples c ! nat Index)"
      using rng len by (simp add: TArray_index_def TArray_Num_def)
    have "(if Index + 1 = SampleSize c then 0 else Index + 1) = (Index + 1) mod SampleSize c"
      by (rule wrap_step [OF rng])
    also have "\<dots> = ((CurrentSampleIndex c + i) mod SampleSize c + 1) mod SampleSize c"
      by (simp only: Ix)
    also have "\<dots> = (CurrentSampleIndex c + i + 1) mod SampleSize c"
      by (rule mod_add_left_eq)
    finally have nxt: "(if Index + 1 = SampleSize c then 0 else Index + 1) =
        (CurrentSampleIndex c + (i + 1)) mod SampleSize c"
      by (simp only: add.assoc)
    have IH: "ForEachCurrentSample_loop c f (i + 1)
        (if Index + 1 = SampleSize c then 0 else Index + 1) (f (Samples c ! nat Index) st) =
        Inr (foldl (\<lambda>s v. f v s) (f (Samples c ! nat Index) st) (drop (nat (i + 1)) (window c)))"
      using inv i0 True nxt by (intro "1.IH" [OF True rd]) simp_all
    have "nat i < length (window c)"
      using True i0 len by (simp add: window_length)
    then have "drop (nat i) (window c) = window c ! nat i # drop (Suc (nat i)) (window c)"
      by (simp add: Cons_nth_drop_Suc)
    moreover have "window c ! nat i = Samples c ! nat Index"
      using window_nth [OF inv i0 True] Ix by simp
    moreover have "nat (i + 1) = Suc (nat i)"
      using i0 by simp
    ultimately show ?thesis
      using True rd IH by (subst ForEachCurrentSample_loop.simps) simp
  qed
qed

lemma ForEachCurrentSample_window:
  assumes "cache_inv c"
  shows "ForEachCurrentSample c f st = Inr (foldl (\<lambda>s v. f v s) st (window c))"
proof -
  have "0 \<le> SampleSize c" "CurrentSampleIndex c = (CurrentSampleIndex c + 0) mod SampleSize c"
    using assms by (auto simp: cache_inv_def)
  from loop_window [where c = c and i = 0 and f = f and st = st, OF assms _ this] show ?thesis
    by (simp add: ForEachCurrentSample_def)
qed

lemma foldl_snoc: "foldl (\<lambda>s v. s @ [v]) acc xs = acc @ xs"
  by (induction xs arbitrary: acc) simp_all

lemma visited_window: "cache_inv c \<Longrightarrow> visited c = Inr (window c)"
  by (simp add: visited_def ForEachCurrentSample_window foldl_snoc)

lemma RecordSamples_window:
  assumes "cache_inv c"
  shows "\<exists>c'. RecordSamples vs c = Inr c' \<and> cache_inv c' \<and>
     SampleSize c' = SampleSize c \<and>
     window c' = drop (length vs) (window c @ vs)"
  using assms
proof (induction vs arbitrary: c)
  case Nil
  then show ?case by simp
next
  case (Cons v vs)
  obtain c1 where c1: "RecordSample v c = Inr c1"
    using RecordSample_ok [OF Cons.prems] by blast
  have inv1: "cache_inv c1" by (rule RecordSample_inv [OF Cons.prems c1])
  have sz1: "SampleSize c1 = SampleSize c"
    using c1 unfolding RecordSample_ok [OF Cons.prems] by auto
  have w1: "window c1 = tl (window c) @ [v]"
    by (rule window_RecordSample [OF Cons.prems c1])
  have ne: "window c \<noteq> []"
    using Cons.prems by (auto simp: cache_inv_def TArray_Num_def window_def)
  from Cons.IH [OF inv1] obtain c' where
    c': "RecordSamples vs c1 = Inr c'" "cache_inv c'" "SampleSize c' = SampleSize c1"
        "window c' = drop (length vs) (window c1 @ vs)"
    by blast
  have "drop (length vs) (window c1 @ vs) = drop (length (v # vs)) (window c @ v # vs)"
    using ne unfolding w1 by (cases "window c") simp_all
  with c' c1 sz1 show ?case by simp
qed

subsection \<open>The queries\<close>

lemma mset_rotate_eq: "mset (rotate n xs) = mset xs"
proof -
  define k where "k = n mod length xs"
  have "mset (rotate n xs) = mset (drop k xs) + mset (take k xs)"
    by (simp add: rotate_drop_take k_def)
  also have "\<dots> = mset (take k xs) + mset (drop k xs)"
    by (rule union_commute)
  also have "\<dots> = mset (take k xs @ drop k xs)"
    by (simp only: mset_append)
  also have "\<dots> = mset xs"
    by (simp only: append_take_drop_id)
  finally show ?thesis .
qed

lemma cache_inv_nonempty: "cache_inv c \<Longrightarrow> Samples c \<noteq> []"
  by (auto simp: cache_inv_def TArray_Num_def)


lemma GetCurrentCachedStat_eq:
  "cache_inv c \<Longrightarrow> GetCurrentCachedStat c = Inr (Samples c ! nat (CurrentSampleIndex c))"
  by (simp add: GetCurrentCachedStat_def TArray_index_def cache_inv_def)

lemma GetLastCachedStat_eq:
  assumes "cache_inv c"
  shows "GetLastCachedStat c =
    Inr (Samples c ! nat ((CurrentSampleIndex c - 1 + SampleSize c) mod SampleSize c))"
proof (cases "CurrentSampleIndex c = 0")
  case True
  with assms show ?thesis
    by (simp add: GetLastCachedStat_def TArray_index_def cache_inv_def zmod_minus1)
next
  case False
  with assms have "(CurrentSampleIndex c - 1 + SampleSize c) mod SampleSize c = CurrentSampleIndex c - 1"
    by (simp add: cache_inv_def)
  with assms False show ?thesis
    by (simp add: GetLastCachedStat_def TArray_index_def cache_inv_def)
qed

lemma ctor_inv:
  assumes "0 < n" and "FSampledStatCache_ctor n = Inr c"
  shows "cache_inv c"
  using assms(2) unfolding ctor_ok [OF assms(1)]
  using assms(1) by (auto simp: cache_inv_def TArray_Num_def)



lemma GetAverage_eq:
  assumes "cache_inv c"
  shows "GetAverage ops c =
     Inr (dbl_div ops (foldl (dbl_add ops) 0 (window c)) (dbl_of_int32 ops (SampleSize c)))"
proof -
  have "(\<lambda>s v. dbl_add ops s v) = dbl_add ops" by (rule refl)
  then show ?thesis
    by (simp add: GetAverage_def ForEachCurrentSample_window [OF assms])
qed

lemma totally_ordered_trans:
  "totally_ordered lt ys \<Longrightarrow> x \<in> set ys \<Longrightarrow> y \<in> set ys \<Longrightarrow> z \<in> set ys \<Longrightarrow>
     lt x y \<Longrightarrow> lt y z \<Longrightarrow> lt x z"
  unfolding totally_ordered_def by blast

lemma totally_ordered_total:
  "totally_ordered lt ys \<Longrightarrow> x \<in> set ys \<Longrightarrow> y \<in> set ys \<Longrightarrow> lt x y \<or> x = y \<or> lt y x"
  unfolding totally_ordered_def by blast

lemma MinElement_loop_least:
  assumes ord: "totally_ordered lt ys"
  shows "r \<in> set ys \<Longrightarrow> set xs \<subseteq> set ys \<Longrightarrow>
     \<exists>m. MinElement_loop lt xs (Some r) = Some m \<and> m \<in> insert r (set xs) \<and>
       (\<forall>x\<in>insert r (set xs). x = m \<or> lt m x)"
proof (induction xs arbitrary: r)
  case Nil
  then show ?case by simp
next
  case (Cons e xs)
  note trans = totally_ordered_trans [OF ord] and total = totally_ordered_total [OF ord]
  have e: "e \<in> set ys" and xs: "set xs \<subseteq> set ys" using Cons.prems(2) by simp_all
  show ?case
  proof (cases "lt e r")
    case True
    from Cons.IH [OF e xs] obtain m where
      m: "MinElement_loop lt xs (Some e) = Some m" "m \<in> insert e (set xs)"
         "\<forall>x\<in>insert e (set xs). x = m \<or> lt m x"
      by blast
    have mA: "m \<in> set ys" using m(2) e xs by auto
    have "e = m \<or> lt m e" using m(3) by simp
    then have "lt m r" using True trans [OF mA e Cons.prems(1)] by auto
    with m True show ?thesis by auto
  next
    case False
    from Cons.IH [OF Cons.prems(1) xs] obtain m where
      m: "MinElement_loop lt xs (Some r) = Some m" "m \<in> insert r (set xs)"
         "\<forall>x\<in>insert r (set xs). x = m \<or> lt m x"
      by blast
    have mA: "m \<in> set ys" using m(2) Cons.prems(1) xs by auto
    have re: "r = e \<or> lt r e" using False total [OF Cons.prems(1) e] by auto
    have mr: "r = m \<or> lt m r" using m(3) by simp
    have "e = m \<or> lt m e"
      using re mr trans [OF mA Cons.prems(1) e] by auto
    with m False show ?thesis by auto
  qed
qed

lemma MinElement_loop_mem:
  "\<exists>m. MinElement_loop lt xs (Some r) = Some m \<and> m \<in> insert r (set xs)"
proof (induction xs arbitrary: r)
  case Nil
  then show ?case by simp
next
  case (Cons e xs)
  from Cons.IH [of e] Cons.IH [of r] show ?case by (cases "lt e r") auto
qed

lemma MaxElement_loop_flip:
  "MaxElement_loop lt xs Result = MinElement_loop (\<lambda>a b. lt b a) xs Result"
  by (induction xs arbitrary: Result) simp_all

lemma Algo_MinElement_None: "(Algo_MinElement lt xs = None) = (xs = [])"
proof (cases xs)
  case Nil
  then show ?thesis by (simp add: Algo_MinElement_def)
next
  case (Cons e es)
  from MinElement_loop_mem [of lt es e] Cons show ?thesis
    by (auto simp: Algo_MinElement_def)
qed

lemma Algo_MaxElement_None: "(Algo_MaxElement lt xs = None) = (xs = [])"
  using Algo_MinElement_None [of "\<lambda>a b. lt b a" xs]
  by (simp add: Algo_MaxElement_def Algo_MinElement_def MaxElement_loop_flip)

lemma Algo_MinElement_Some:
  assumes "xs \<noteq> []"
  shows "\<exists>m. Algo_MinElement lt xs = Some m \<and> m \<in> set xs \<and>
     (totally_ordered lt xs \<longrightarrow> (\<forall>x\<in>set xs. x = m \<or> lt m x))"
proof -
  from assms obtain e es where xs: "xs = e # es" by (cases xs) auto
  show ?thesis
  proof (cases "totally_ordered lt xs")
    case False
    with MinElement_loop_mem [of lt es e] xs show ?thesis
      by (auto simp: Algo_MinElement_def)
  next
    case True
    have "e \<in> set xs" "set es \<subseteq> set xs" using xs by auto
    from MinElement_loop_least [OF True this] xs
    show ?thesis by (auto simp: Algo_MinElement_def)
  qed
qed

lemma totally_ordered_flip: "totally_ordered (\<lambda>a b. lt b a) xs = totally_ordered lt xs"
  unfolding totally_ordered_def by blast

lemma Algo_MaxElement_Some:
  assumes "xs \<noteq> []"
  shows "\<exists>M. Algo_MaxElement lt xs = Some M \<and> M \<in> set xs \<and>
     (totally_ordered lt xs \<longrightarrow> (\<forall>x\<in>set xs. x = M \<or> lt x M))"
proof -
  have flip: "Algo_MaxElement lt xs = Algo_MinElement (\<lambda>a b. lt b a) xs"
    by (simp add: Algo_MaxElement_def Algo_MinElement_def MaxElement_loop_flip)
  have ord: "totally_ordered (\<lambda>a b. lt b a) xs = totally_ordered lt xs"
    by (rule totally_ordered_flip)
  from Algo_MinElement_Some [OF assms, of "\<lambda>a b. lt b a"] show ?thesis
    unfolding flip ord .
qed

lemma GetMin_ok:
  assumes "cache_inv c"
  shows "\<exists>m. Algo_MinElement lt (Samples c) = Some m \<and> GetMin lt c = Inr m \<and>
     m \<in> set (Samples c) \<and>
     (totally_ordered lt (Samples c) \<longrightarrow> (\<forall>x\<in>set (Samples c). x = m \<or> lt m x))"
  using Algo_MinElement_Some [OF cache_inv_nonempty [OF assms], of lt]
  by (auto simp: GetMin_def)

lemma GetMax_ok:
  assumes "cache_inv c"
  shows "\<exists>M. Algo_MaxElement lt (Samples c) = Some M \<and> GetMax lt c = Inr M \<and>
     M \<in> set (Samples c) \<and>
     (totally_ordered lt (Samples c) \<longrightarrow> (\<forall>x\<in>set (Samples c). x = M \<or> lt x M))"
  using Algo_MaxElement_Some [OF cache_inv_nonempty [OF assms], of lt]
  by (auto simp: GetMax_def)

subsection \<open>The calls return what the methods compute and the object they were given\<close>

lemma GetCurrentCachedStat_call_eq:
  "GetCurrentCachedStat_call c = map_sum id (\<lambda>v. (v, c)) (GetCurrentCachedStat c)"
  by (simp add: GetCurrentCachedStat_call_def GetCurrentCachedStat_def split: sum.splits)

lemma GetLastCachedStat_call_eq:
  "GetLastCachedStat_call c = map_sum id (\<lambda>v. (v, c)) (GetLastCachedStat c)"
  by (simp add: GetLastCachedStat_call_def GetLastCachedStat_def Let_def split: sum.splits)

lemma ForEachCurrentSample_call_loop_eq:
  "ForEachCurrentSample_call_loop func i Index st c =
     map_sum id (\<lambda>s. (s, c)) (ForEachCurrentSample_loop c func i Index st)"
proof (induction func i Index st c rule: ForEachCurrentSample_call_loop.induct)
  case (1 func i Index st c)
  show ?case
  proof (cases "i < SampleSize c")
    case False
    then show ?thesis
      by (subst ForEachCurrentSample_call_loop.simps, subst ForEachCurrentSample_loop.simps) simp
  next
    case True
    show ?thesis
    proof (cases "TArray_index (Samples c) Index")
      case (Inl e)
      with True show ?thesis
        by (subst ForEachCurrentSample_call_loop.simps, subst ForEachCurrentSample_loop.simps) simp
    next
      case (Inr Stat)
      from "1.IH" [OF True Inr] True Inr show ?thesis
        by (subst ForEachCurrentSample_call_loop.simps, subst ForEachCurrentSample_loop.simps)
          (simp add: id_def)
    qed
  qed
qed

lemma ForEachCurrentSample_call_eq:
  "ForEachCurrentSample_call func st c = map_sum id (\<lambda>s. (s, c)) (ForEachCurrentSample c func st)"
  by (simp add: ForEachCurrentSample_call_def ForEachCurrentSample_def
      ForEachCurrentSample_call_loop_eq)

lemma GetAverage_call_eq:
  "GetAverage_call ops c = map_sum id (\<lambda>v. (v, c)) (GetAverage ops c)"
  by (simp add: GetAverage_call_def GetAverage_def ForEachCurrentSample_call_eq
      split: sum.splits)

lemma GetMin_call_eq: "GetMin_call lt c = map_sum id (\<lambda>v. (v, c)) (GetMin lt c)"
  by (simp add: GetMin_call_def GetMin_def split: option.splits)

lemma GetMax_call_eq: "GetMax_call lt c = map_sum id (\<lambda>v. (v, c)) (GetMax lt c)"
  by (simp add: GetMax_call_def GetMax_def split: option.splits)

lemmas call_eqs =
  GetCurrentCachedStat_call_eq GetLastCachedStat_call_eq ForEachCurrentSample_call_eq
  GetAverage_call_eq GetMin_call_eq GetMax_call_eq GetSampleSize_call_def

lemma call_unchanged: "call ops q c = Inr (a, c') \<Longrightarrow> c' = c"
  by (cases q) (auto simp: call_eqs map_sum_def split: sum.splits)

lemma call_total: "cache_inv c \<Longrightarrow> \<exists>a. call ops q c = Inr (a, c)"
proof (cases q)
  case Q_GetMin
  assume "cache_inv c"
  from GetMin_ok [OF this, of "dbl_less ops"] Q_GetMin show ?thesis
    by (auto simp: call_eqs)
next
  case Q_GetMax
  assume "cache_inv c"
  from GetMax_ok [OF this, of "dbl_less ops"] Q_GetMax show ?thesis
    by (auto simp: call_eqs)
qed (simp_all add: call_eqs GetCurrentCachedStat_eq GetLastCachedStat_eq visited_window
    GetAverage_eq ForEachCurrentSample_window)

lemma RecordSample_no_overflow:
  "cache_inv c \<Longrightarrow> SampleSize c \<le> 2 ^ 31 - 1 \<Longrightarrow> CurrentSampleIndex c + 1 \<le> 2 ^ 31 - 1"
  by (simp add: cache_inv_def)

lemma window_ctor:
  "window \<lparr> SampleSize = n, CurrentSampleIndex = 0, Samples = replicate (nat n) 0 \<rparr> =
     replicate (nat n) 0"
  by (simp add: window_def)

lemma construct_then_record_window:
  fixes vs :: "'a::zero list"
  assumes "0 < C"
  shows "\<exists>c. construct_then_record C vs = Inr c \<and> cache_inv c \<and> SampleSize c = C \<and>
     window c = drop (length vs) (replicate (nat C) 0 @ vs)"
proof -
  let ?c0 = "\<lparr> SampleSize = C, CurrentSampleIndex = 0, Samples = replicate (nat C) (0::'a) \<rparr>"
  have c0: "FSampledStatCache_ctor C = Inr ?c0" by (rule ctor_ok [OF assms])
  have inv0: "cache_inv ?c0" by (rule ctor_inv [OF assms c0])
  from RecordSamples_window [OF inv0, of vs] c0 show ?thesis
    by (auto simp: construct_then_record_def window_ctor)
qed

lemma drop_zeros_then:
  "n \<le> length vs \<Longrightarrow> drop (length vs) (replicate n z @ vs) = drop (length vs - n) vs"
  by simp


subsection \<open>Method calls and the registry\<close>

lemma RecordSample_shape:
  assumes "cache_inv c"
  shows "\<exists>c'. RecordSample v c = Inr c' \<and> cache_inv c' \<and> SampleSize c' = SampleSize c \<and>
     length (Samples c') = length (Samples c)"
proof -
  obtain c' where rec: "RecordSample v c = Inr c'"
    using RecordSample_ok [OF assms] by blast
  have "cache_inv c'" by (rule RecordSample_inv [OF assms rec])
  moreover have "SampleSize c' = SampleSize c" "length (Samples c') = length (Samples c)"
    using rec unfolding RecordSample_ok [OF assms] by auto
  ultimately show ?thesis using rec by blast
qed

lemma invoke_shape:
  assumes "cache_inv c"
  shows "\<exists>a c'. invoke ops m c = Inr (a, c') \<and> cache_inv c' \<and> SampleSize c' = SampleSize c \<and>
     length (Samples c') = length (Samples c)"
proof (cases m)
  case (Record v)
  from RecordSample_shape [OF assms, of v] show ?thesis
    unfolding Record by auto
next
  case (Ask q)
  from call_total [OF assms, of ops q] assms show ?thesis
    unfolding Ask by auto
qed

lemma invoke_all_shape:
  "cache_inv c \<Longrightarrow>
     \<exists>as c'. invoke_all ops ms c = Inr (as, c') \<and> length as = length ms \<and> cache_inv c' \<and>
       SampleSize c' = SampleSize c \<and> length (Samples c') = length (Samples c)"
proof (induction ms arbitrary: c)
  case Nil
  then show ?case by simp
next
  case (Cons m ms)
  from invoke_shape [OF Cons.prems, of ops m] obtain a c1 where
    s1: "invoke ops m c = Inr (a, c1)" "cache_inv c1" "SampleSize c1 = SampleSize c"
        "length (Samples c1) = length (Samples c)"
    by blast
  from Cons.IH [OF s1(2)] obtain as c' where
    s2: "invoke_all ops ms c1 = Inr (as, c')" "length as = length ms" "cache_inv c'"
        "SampleSize c' = SampleSize c1" "length (Samples c') = length (Samples c1)"
    by blast
  from s1 s2 show ?case by simp
qed

lemma registry_write_back:
  "PerfStateCache r kind = Some Cache \<Longrightarrow>
     r \<lparr> PerfStateCache := (PerfStateCache r)(kind \<mapsto> Cache) \<rparr> = r"
  by (simp add: map_upd_triv)

lemma GetCachedStat_call_eq:
  "GetCachedStat_call r kind = map_sum id (\<lambda>v. (v, r)) (GetCachedStat r kind)"
proof (cases "PerfStateCache r kind")
  case None
  then show ?thesis
    by (simp add: GetCachedStat_call_def GetCachedStatData_call_def GetCachedStat_def
        GetCachedStatData_def)
next
  case (Some Cache)
  then show ?thesis
    by (cases "GetCurrentCachedStat Cache")
      (simp_all add: GetCachedStat_call_def GetCachedStatData_call_def GetCachedStat_def
        GetCachedStatData_def GetCurrentCachedStat_call_eq registry_write_back)
qed

lemma serve_unchanged: "serve ops q r = Inr (b, r') \<Longrightarrow> r' = r"
proof (cases q)
  case (Req_GetCachedStat kind)
  assume "serve ops q r = Inr (b, r')"
  with Req_GetCachedStat show ?thesis
    by (cases "GetCachedStat r kind") (auto simp: GetCachedStat_call_eq)
next
  case (Req_GetCachedStatData kind)
  assume "serve ops q r = Inr (b, r')"
  with Req_GetCachedStatData show ?thesis
    by (auto simp: GetCachedStatData_call_def)
next
  case (Req_Query kind qu)
  assume s: "serve ops q r = Inr (b, r')"
  show ?thesis
  proof (cases "PerfStateCache r kind")
    case None
    with s Req_Query show ?thesis by (simp add: GetCachedStatData_call_def)
  next
    case (Some Cache)
    with s Req_Query obtain a Cache' where
      c: "call ops qu Cache = Inr (a, Cache')"
      and r': "r' = r \<lparr> PerfStateCache := (PerfStateCache r)(kind \<mapsto> Cache') \<rparr>"
      by (auto simp: GetCachedStatData_call_def split: sum.splits)
    from call_unchanged [OF c] r' Some show ?thesis
      by (simp add: registry_write_back)
  qed
qed

lemma serve_all_sound:
  "serve_all ops qs r = Inr (bs, r') \<Longrightarrow>
     r' = r \<and> list_all2 (\<lambda>q b. serve ops q r = Inr (b, r)) qs bs"
proof (induction qs arbitrary: bs)
  case Nil
  then show ?case by simp
next
  case (Cons q qs)
  from Cons.prems obtain b r1 where q: "serve ops q r = Inr (b, r1)"
    by (auto split: sum.splits)
  have r1: "r1 = r" by (rule serve_unchanged [OF q])
  from Cons.prems q r1 obtain bs2 where
    rest: "serve_all ops qs r = Inr (bs2, r')" and bs: "bs = b # bs2"
    by (auto split: sum.splits)
  from Cons.IH [OF rest] q r1 bs show ?case by simp
qed

lemma serve_all_complete:
  "list_all2 (\<lambda>q b. serve ops q r = Inr (b, r)) qs bs \<Longrightarrow> serve_all ops qs r = Inr (bs, r)"
  by (induction qs bs rule: list_all2_induct) simp_all

lemma serve_all_iff:
  "serve_all ops qs r = Inr (bs, r') \<longleftrightarrow>
     r' = r \<and> list_all2 (\<lambda>q b. serve ops q r = Inr (b, r)) qs bs"
  using serve_all_sound serve_all_complete by blast


lemma invoke_all_Ask_sound:
  "invoke_all ops (map Ask qs) c = Inr (as, c') \<Longrightarrow>
     c' = c \<and> list_all2 (\<lambda>q a. call ops q c = Inr (a, c)) qs as"
proof (induction qs arbitrary: as)
  case Nil
  then show ?case by simp
next
  case (Cons q qs)
  from Cons.prems obtain a c1 where q1: "call ops q c = Inr (a, c1)"
    by (auto split: sum.splits)
  have c1: "c1 = c" by (rule call_unchanged [OF q1])
  from Cons.prems q1 c1 obtain as2 where
    rest: "invoke_all ops (map Ask qs) c = Inr (as2, c')" and as: "as = a # as2"
    by (auto split: sum.splits)
  from Cons.IH [OF rest] q1 c1 as show ?case by simp
qed

lemma invoke_all_Ask_complete:
  "list_all2 (\<lambda>q a. call ops q c = Inr (a, c)) qs as \<Longrightarrow>
     invoke_all ops (map Ask qs) c = Inr (as, c)"
  by (induction qs as rule: list_all2_induct) simp_all

lemma invoke_all_Ask_iff:
  "invoke_all ops (map Ask qs) c = Inr (as, c') \<longleftrightarrow>
     c' = c \<and> list_all2 (\<lambda>q a. call ops q c = Inr (a, c)) qs as"
  using invoke_all_Ask_sound invoke_all_Ask_complete by blast

lemma window_as_map:
  assumes "cache_inv c"
  shows "window c =
     map (\<lambda>k. Samples c ! nat ((CurrentSampleIndex c + int k) mod SampleSize c))
       [0..<nat (SampleSize c)]"
proof (rule nth_equalityI)
  have len: "length (Samples c) = nat (SampleSize c)"
    using assms by (auto simp: cache_inv_def TArray_Num_def)
  then show "length (window c) =
      length (map (\<lambda>k. Samples c ! nat ((CurrentSampleIndex c + int k) mod SampleSize c))
        [0..<nat (SampleSize c)])"
    by (simp add: window_length)
  fix k assume "k < length (window c)"
  then have k: "int k < SampleSize c" "k < nat (SampleSize c)"
    using len by (simp_all add: window_length)
  from window_nth [OF assms _ k(1)] k(2)
  show "window c ! k =
      map (\<lambda>k. Samples c ! nat ((CurrentSampleIndex c + int k) mod SampleSize c))
        [0..<nat (SampleSize c)] ! k"
    by simp
qed

lemma serve_all_replicate:
  "serve ops q r = Inr (b, r) \<Longrightarrow> serve_all ops (replicate k q) r = Inr (replicate k b, r)"
  by (induction k) simp_all

lemma invoke_all_replicate:
  "call ops q c = Inr (a, c) \<Longrightarrow>
     invoke_all ops (replicate k (Ask q)) c = Inr (replicate k a, c)"
  by (induction k) simp_all

lemma ctor_shape:
  assumes "0 < n"
  shows "\<exists>c0 :: ('a::zero) FSampledStatCache.
     FSampledStatCache_ctor n = Inr c0 \<and> cache_inv c0 \<and> SampleSize c0 = n \<and>
     length (Samples c0) = nat n"
proof -
  let ?c0 = "\<lparr> SampleSize = n, CurrentSampleIndex = 0, Samples = replicate (nat n) (0::'a) \<rparr>"
  have c0: "FSampledStatCache_ctor n = Inr ?c0" by (rule ctor_ok [OF assms])
  have "cache_inv ?c0" by (rule ctor_inv [OF assms c0])
  with c0 show ?thesis by auto
qed

lemma reachable_shape:
  assumes "0 < n"
  shows "\<exists>(c0 :: ('a::zero) FSampledStatCache) as c'.
     FSampledStatCache_ctor n = Inr c0 \<and> invoke_all ops ms c0 = Inr (as, c') \<and> cache_inv c' \<and>
     SampleSize c' = n \<and> length (Samples c') = nat n"
proof -
  from ctor_shape [OF assms] obtain c0 :: "'a FSampledStatCache" where
    c0: "FSampledStatCache_ctor n = Inr c0" "cache_inv c0" "SampleSize c0 = n"
        "length (Samples c0) = nat n"
    by blast
  from invoke_all_shape [OF c0(2), of ops ms] c0 show ?thesis by force
qed


subsection \<open>The claims\<close>

text \<open>
  Claim C1. For a capacity \<open>C > 0\<close> and a sequence \<open>vs\<close> of at least \<open>C\<close> samples
  recorded into a fresh buffer, the calls succeed, \<^verbatim>\<open>ForEachCurrentSample\<close> visits
  exactly the last \<open>C\<close> recorded values, oldest first, and the array holds those
  values and no others. After exactly \<open>C\<close> samples the traversal yields the
  recorded sequence itself.
\<close>

theorem ring_buffer_holds_last_samples:
  fixes vs :: "'a::zero list"
  assumes "0 < C" and "nat C \<le> length vs"
  shows "\<exists>c. construct_then_record C vs = Inr c \<and>
     visited c = Inr (drop (length vs - nat C) vs) \<and>
     mset (Samples c) = mset (drop (length vs - nat C) vs) \<and>
     (length vs = nat C \<longrightarrow> visited c = Inr vs)"
proof -
  from construct_then_record_window [OF assms(1), of vs] obtain c where
    c: "construct_then_record C vs = Inr c" "cache_inv c"
       "window c = drop (length vs) (replicate (nat C) 0 @ vs)"
    by blast
  have w: "window c = drop (length vs - nat C) vs"
    unfolding c(3) by (rule drop_zeros_then [OF assms(2)])
  have "mset (Samples c) = mset (window c)"
    by (simp add: window_def mset_rotate_eq)
  with c w show ?thesis
    by (auto simp: visited_window)
qed

theorem ring_buffer_holds_last_samples_witness:
  "(0::int) < 3 \<and> nat 3 \<le> length [1, 2, 3, 4, 5 :: real] \<and>
   (\<exists>c. construct_then_record 3 [1, 2, 3, 4, 5 :: real] = Inr c \<and> visited c = Inr [3, 4, 5]) \<and>
   (\<exists>c. construct_then_record 3 [7, 8, 9 :: real] = Inr c \<and> visited c = Inr [7, 8, 9])"
proof -
  have h: "(0::int) < 3" "nat 3 \<le> length [1, 2, 3, 4, 5 :: real]" "nat 3 \<le> length [7, 8, 9 :: real]"
    by simp_all
  have d: "drop (length [1, 2, 3, 4, 5 :: real] - nat 3) [1, 2, 3, 4, 5 :: real] = [3, 4, 5]"
    by code_simp
  from ring_buffer_holds_last_samples [OF h(1) h(2)] ring_buffer_holds_last_samples [OF h(1) h(3)]
  show ?thesis unfolding d using h by auto
qed

text \<open>
  Claim C2. On a well-formed buffer \<^verbatim>\<open>GetCurrentCachedStat\<close> returns
  \<^verbatim>\<open>Samples[CurrentSampleIndex]\<close>: the first value of the window, and the slot the
  next \<^verbatim>\<open>RecordSample\<close> overwrites. Once at least \<open>C\<close> samples have been recorded into
  a fresh buffer of capacity \<open>C\<close>, it is the sample recorded \<open>C\<close> calls ago. A
  capacity-3 buffer after recording 1, 2, 3, 4, 5 holds 3, 4, 5 and returns 3.
\<close>

theorem GetCurrentCachedStat_is_oldest:
  "(cache_inv c \<longrightarrow>
      GetCurrentCachedStat c = Inr (Samples c ! nat (CurrentSampleIndex c)) \<and>
      GetCurrentCachedStat c = Inr (hd (window c)) \<and>
      (\<exists>c'. RecordSample v c = Inr c' \<and>
            Samples c' = (Samples c)[nat (CurrentSampleIndex c) := v])) \<and>
   (0 < C \<and> nat C \<le> length vs \<longrightarrow>
      (\<exists>c'. construct_then_record C vs = Inr c' \<and>
            GetCurrentCachedStat c' = Inr (vs ! (length vs - nat C)))) \<and>
   (\<exists>c'. construct_then_record 3 [1, 2, 3, 4, 5 :: real] = Inr c' \<and>
         window c' = [3, 4, 5] \<and> GetCurrentCachedStat c' = Inr 3)"
proof (intro conjI impI)
  assume inv: "cache_inv c"
  show "GetCurrentCachedStat c = Inr (Samples c ! nat (CurrentSampleIndex c))"
    by (rule GetCurrentCachedStat_eq [OF inv])
  have "nat (CurrentSampleIndex c) < length (Samples c)"
    using inv by (auto simp: cache_inv_def TArray_Num_def)
  then have "hd (window c) = Samples c ! nat (CurrentSampleIndex c)"
    by (simp add: window_def rotate_drop_take hd_append hd_drop_conv_nth)
  then show "GetCurrentCachedStat c = Inr (hd (window c))"
    by (simp add: GetCurrentCachedStat_eq [OF inv])
  show "\<exists>c'. RecordSample v c = Inr c' \<and>
            Samples c' = (Samples c)[nat (CurrentSampleIndex c) := v]"
    by (simp add: RecordSample_ok [OF inv])
next
  assume "0 < C \<and> nat C \<le> length vs"
  then have C: "0 < C" and len: "nat C \<le> length vs" by simp_all
  from construct_then_record_window [OF C, of vs] obtain c' where
    c': "construct_then_record C vs = Inr c'" "cache_inv c'"
        "window c' = drop (length vs) (replicate (nat C) 0 @ vs)"
    by blast
  have w: "window c' = drop (length vs - nat C) vs"
    unfolding c'(3) by (rule drop_zeros_then [OF len])
  have "nat (CurrentSampleIndex c') < length (Samples c')"
    using c'(2) by (auto simp: cache_inv_def TArray_Num_def)
  then have "Samples c' ! nat (CurrentSampleIndex c') = hd (window c')"
    by (simp add: window_def rotate_drop_take hd_append hd_drop_conv_nth)
  also have "\<dots> = vs ! (length vs - nat C)"
    unfolding w using C len by (simp add: hd_drop_conv_nth)
  finally show "\<exists>c'. construct_then_record C vs = Inr c' \<and>
      GetCurrentCachedStat c' = Inr (vs ! (length vs - nat C))"
    using c' by (auto simp: GetCurrentCachedStat_eq)
next
  have "construct_then_record 3 [1, 2, 3, 4, 5 :: real] =
      Inr \<lparr> SampleSize = 3, CurrentSampleIndex = 2, Samples = [4, 5, 3] \<rparr>"
    by code_simp
  moreover have "window \<lparr> SampleSize = 3, CurrentSampleIndex = 2, Samples = [4, 5, 3 :: real] \<rparr> = [3, 4, 5]"
    by code_simp
  moreover have "GetCurrentCachedStat \<lparr> SampleSize = 3, CurrentSampleIndex = 2, Samples = [4, 5, 3 :: real] \<rparr> = Inr 3"
    by code_simp
  ultimately show "\<exists>c'. construct_then_record 3 [1, 2, 3, 4, 5 :: real] = Inr c' \<and>
         window c' = [3, 4, 5] \<and> GetCurrentCachedStat c' = Inr 3"
    by simp
qed

theorem GetCurrentCachedStat_is_oldest_witness:
  "cache_inv \<lparr> SampleSize = 3, CurrentSampleIndex = 2, Samples = [4, 5, 3 :: real] \<rparr> \<and>
   GetCurrentCachedStat \<lparr> SampleSize = 3, CurrentSampleIndex = 2, Samples = [4, 5, 3 :: real] \<rparr> = Inr 3 \<and>
   (0::int) < 2 \<and> nat 2 \<le> length [10, 20, 30 :: real] \<and>
   (\<exists>c'. construct_then_record 2 [10, 20, 30 :: real] = Inr c' \<and>
         GetCurrentCachedStat c' = Inr 20)"
proof -
  let ?c = "\<lparr> SampleSize = 3, CurrentSampleIndex = 2, Samples = [4, 5, 3 :: real] \<rparr>"
  have inv: "cache_inv ?c" by code_simp
  have h: "(0::int) < 2 \<and> nat 2 \<le> length [10, 20, 30 :: real]" by simp
  have n: "[10, 20, 30 :: real] ! (length [10, 20, 30 :: real] - nat 2) = 20" by code_simp
  note inst = GetCurrentCachedStat_is_oldest [where c = ?c and v = 6 and C = 2
      and vs = "[10, 20, 30 :: real]"]
  from inst inv have "GetCurrentCachedStat ?c = Inr (Samples ?c ! nat (CurrentSampleIndex ?c))"
    by blast
  then have a: "GetCurrentCachedStat ?c = Inr 3" by simp
  from inst h have "\<exists>c'. construct_then_record 2 [10, 20, 30 :: real] = Inr c' \<and>
      GetCurrentCachedStat c' = Inr ([10, 20, 30 :: real] ! (length [10, 20, 30 :: real] - nat 2))"
    by blast
  then have b: "\<exists>c'. construct_then_record 2 [10, 20, 30 :: real] = Inr c' \<and>
      GetCurrentCachedStat c' = Inr 20"
    unfolding n .
  from inv a h b show ?thesis by blast
qed

text \<open>
  Claim C3. On a well-formed buffer \<^verbatim>\<open>GetLastCachedStat\<close> returns the slot at
  \<open>(CurrentSampleIndex - 1 + SampleSize) mod SampleSize\<close>, and right after
  \<^verbatim>\<open>RecordSample(x)\<close>, which succeeds, it returns \<open>x\<close>.
\<close>

theorem GetLastCachedStat_most_recent:
  assumes "cache_inv c"
  shows "GetLastCachedStat c =
       Inr (Samples c ! nat ((CurrentSampleIndex c - 1 + SampleSize c) mod SampleSize c)) \<and>
     (\<exists>c'. RecordSample x c = Inr c' \<and> GetLastCachedStat c' = Inr x)"
proof
  show "GetLastCachedStat c =
      Inr (Samples c ! nat ((CurrentSampleIndex c - 1 + SampleSize c) mod SampleSize c))"
    by (rule GetLastCachedStat_eq [OF assms])
next
  define i where "i = CurrentSampleIndex c"
  define c' where "c' = c \<lparr> Samples := (Samples c)[nat i := x],
      CurrentSampleIndex := (if i + 1 = SampleSize c then 0 else i + 1) \<rparr>"
  have rec: "RecordSample x c = Inr c'"
    unfolding c'_def i_def by (rule RecordSample_ok [OF assms])
  have inv': "cache_inv c'" by (rule RecordSample_inv [OF assms rec])
  have i: "0 \<le> i" "i < SampleSize c" "nat i < length (Samples c)"
    using assms by (auto simp: cache_inv_def TArray_Num_def i_def)
  have "(CurrentSampleIndex c' - 1 + SampleSize c') mod SampleSize c' = i"
    using i by (auto simp: c'_def zmod_minus1)
  then have "GetLastCachedStat c' = Inr (Samples c' ! nat i)"
    by (simp add: GetLastCachedStat_eq [OF inv'])
  also have "Samples c' ! nat i = x"
    using i by (simp add: c'_def)
  finally show "\<exists>c'. RecordSample x c = Inr c' \<and> GetLastCachedStat c' = Inr x"
    using rec by blast
qed

theorem GetLastCachedStat_most_recent_witness:
  "cache_inv \<lparr> SampleSize = 3, CurrentSampleIndex = 2, Samples = [4, 5, 3 :: real] \<rparr> \<and>
   GetLastCachedStat \<lparr> SampleSize = 3, CurrentSampleIndex = 2, Samples = [4, 5, 3 :: real] \<rparr> = Inr 5 \<and>
   (\<exists>c'. RecordSample 6 \<lparr> SampleSize = 3, CurrentSampleIndex = 2, Samples = [4, 5, 3 :: real] \<rparr> = Inr c' \<and>
         GetLastCachedStat c' = Inr 6)"
proof -
  let ?c = "\<lparr> SampleSize = 3, CurrentSampleIndex = 2, Samples = [4, 5, 3 :: real] \<rparr>"
  have inv: "cache_inv ?c" by code_simp
  have n: "Samples ?c ! nat ((CurrentSampleIndex ?c - 1 + SampleSize ?c) mod SampleSize ?c) = 5"
    by simp
  from GetLastCachedStat_most_recent [OF inv, of 6] inv show ?thesis
    unfolding n by blast
qed




text \<open>
  Claim C5. The constructor fails, with the failed assertion, exactly when the requested
  size is not positive; for a positive size it succeeds with that size (never another
  one), the write index 0 and an array of that many zeros.
\<close>

theorem ctor_fails_iff_nonpositive:
  "(FSampledStatCache_ctor n = (Inl CheckFailed :: error + ('a::zero) FSampledStatCache)) = (n \<le> 0) \<and>
   (\<exists>e. FSampledStatCache_ctor n = (Inl e :: error + 'a FSampledStatCache)) = (n \<le> 0) \<and>
   (0 < n \<longrightarrow>
      FSampledStatCache_ctor n =
        Inr \<lparr> SampleSize = n, CurrentSampleIndex = 0, Samples = replicate (nat n) (0::'a) \<rparr>)"
proof (cases "0 < n")
  case True
  then show ?thesis by (simp add: ctor_ok)
next
  case False
  then show ?thesis by (simp add: ctor_fails)
qed

theorem ctor_fails_iff_nonpositive_witness:
  "FSampledStatCache_ctor 0 = (Inl CheckFailed :: error + real FSampledStatCache) \<and>
   FSampledStatCache_ctor (- 7) = (Inl CheckFailed :: error + real FSampledStatCache) \<and>
   (0::int) < 2 \<and>
   FSampledStatCache_ctor 2 =
     Inr \<lparr> SampleSize = 2, CurrentSampleIndex = 0, Samples = [0, 0 :: real] \<rparr>"
proof -
  have r: "replicate (nat 2) (0::real) = [0, 0]" by code_simp
  from ctor_fails_iff_nonpositive [where 'a = real, of 0]
    ctor_fails_iff_nonpositive [where 'a = real, of "- 7"]
    ctor_fails_iff_nonpositive [where 'a = real, of 2]
  show ?thesis unfolding r by simp
qed

text \<open>
  Claim C6. For a key with no buffer in \<^verbatim>\<open>PerfStateCache\<close>, \<^verbatim>\<open>GetCachedStat\<close> returns
  0 without an error and \<^verbatim>\<open>GetCachedStatData\<close> returns the null pointer; after
  either call the registry is the one before the call, so the key still has no buffer.
\<close>

theorem untracked_stat_defaults_to_zero:
  fixes r :: "('k, 'a::zero) FLyraPerformanceStatCache"
  assumes "PerfStateCache r kind = None"
  shows "GetCachedStat r kind = Inr 0 \<and> GetCachedStatData r kind = None \<and>
     (\<exists>r'. serve ops (Req_GetCachedStat kind) r = Inr (Value 0, r') \<and> r' = r \<and>
           PerfStateCache r' kind = None) \<and>
     (\<exists>r'. serve ops (Req_GetCachedStatData kind) r = Inr (Data None, r') \<and> r' = r \<and>
           PerfStateCache r' kind = None)"
  using assms
  by (simp add: GetCachedStat_def GetCachedStatData_def GetCachedStat_call_def
      GetCachedStatData_call_def)

theorem untracked_stat_defaults_to_zero_witness:
  "PerfStateCache \<lparr> PerfStateCache =
       [0::nat \<mapsto> \<lparr> SampleSize = 3, CurrentSampleIndex = 2, Samples = [4, 5, 3 :: real] \<rparr>] \<rparr> 1 = None \<and>
   GetCachedStat \<lparr> PerfStateCache =
       [0::nat \<mapsto> \<lparr> SampleSize = 3, CurrentSampleIndex = 2, Samples = [4, 5, 3 :: real] \<rparr>] \<rparr> 1 = Inr 0 \<and>
   GetCachedStatData \<lparr> PerfStateCache =
       [0::nat \<mapsto> \<lparr> SampleSize = 3, CurrentSampleIndex = 2, Samples = [4, 5, 3 :: real] \<rparr>] \<rparr> 1 = None"
proof -
  let ?r = "\<lparr> PerfStateCache =
       [0::nat \<mapsto> \<lparr> SampleSize = 3, CurrentSampleIndex = 2, Samples = [4, 5, 3 :: real] \<rparr>] \<rparr>"
  have h: "PerfStateCache ?r 1 = None" by simp
  from untracked_stat_defaults_to_zero [OF h, of real_ops] h show ?thesis by blast
qed

text \<open>
  Claim C7. The constructor, for a positive size, yields a well-formed buffer; every
  method call on a well-formed buffer (\<^verbatim>\<open>RecordSample\<close> or a query) succeeds and leaves
  a well-formed buffer with the same \<^verbatim>\<open>SampleSize\<close> and the same number of slots. So
  after construction and any sequence of calls the array has \<^verbatim>\<open>SampleSize\<close> slots and
  \<open>0 \<le> CurrentSampleIndex < SampleSize\<close>.
\<close>

theorem cache_inv_established_and_preserved:
  fixes c :: "('a::zero) FSampledStatCache"
  shows "(0 < n \<longrightarrow>
      (\<exists>c0 :: 'a FSampledStatCache.
         FSampledStatCache_ctor n = Inr c0 \<and> cache_inv c0 \<and> SampleSize c0 = n \<and>
         length (Samples c0) = nat n)) \<and>
   (cache_inv c \<longrightarrow>
      (\<exists>a c'. invoke ops m c = Inr (a, c') \<and> cache_inv c' \<and> SampleSize c' = SampleSize c \<and>
         length (Samples c') = length (Samples c))) \<and>
   (0 < n \<longrightarrow>
      (\<exists>(c0 :: 'a FSampledStatCache) as c'.
         FSampledStatCache_ctor n = Inr c0 \<and> invoke_all ops ms c0 = Inr (as, c') \<and>
         int (length (Samples c')) = SampleSize c' \<and> 0 \<le> CurrentSampleIndex c' \<and>
         CurrentSampleIndex c' < SampleSize c' \<and> SampleSize c' = n))"
proof (intro conjI impI)
  assume n: "0 < n"
  show "\<exists>c0 :: 'a FSampledStatCache.
      FSampledStatCache_ctor n = Inr c0 \<and> cache_inv c0 \<and> SampleSize c0 = n \<and>
      length (Samples c0) = nat n"
    by (rule ctor_shape [OF n])
  from reachable_shape [OF n, of ops ms] obtain c0 :: "'a FSampledStatCache" and as c' where
    "FSampledStatCache_ctor n = Inr c0" "invoke_all ops ms c0 = Inr (as, c')" "cache_inv c'"
    "SampleSize c' = n"
    by blast
  then show "\<exists>(c0 :: 'a FSampledStatCache) as c'.
      FSampledStatCache_ctor n = Inr c0 \<and> invoke_all ops ms c0 = Inr (as, c') \<and>
      int (length (Samples c')) = SampleSize c' \<and> 0 \<le> CurrentSampleIndex c' \<and>
      CurrentSampleIndex c' < SampleSize c' \<and> SampleSize c' = n"
    unfolding cache_inv_def TArray_Num_def by blast
next
  assume "cache_inv c"
  then show "\<exists>a c'. invoke ops m c = Inr (a, c') \<and> cache_inv c' \<and> SampleSize c' = SampleSize c \<and>
      length (Samples c') = length (Samples c)"
    by (rule invoke_shape)
qed

theorem cache_inv_established_and_preserved_witness:
  "(0::int) < 2 \<and>
   cache_inv \<lparr> SampleSize = 2, CurrentSampleIndex = 1, Samples = [7, 0 :: real] \<rparr> \<and>
   (\<exists>c0 :: real FSampledStatCache. FSampledStatCache_ctor 2 = Inr c0 \<and> cache_inv c0) \<and>
   (\<exists>a c'. invoke real_ops (Record 9) \<lparr> SampleSize = 2, CurrentSampleIndex = 1, Samples = [7, 0 :: real] \<rparr> =
        Inr (a, c') \<and> cache_inv c' \<and> SampleSize c' = 2 \<and> length (Samples c') = 2) \<and>
   (\<exists>(c0 :: real FSampledStatCache) as c'.
      FSampledStatCache_ctor 2 = Inr c0 \<and>
      invoke_all real_ops [Record 7, Ask Q_GetMin, Record 9, Record 1] c0 = Inr (as, c') \<and>
      int (length (Samples c')) = 2 \<and> 0 \<le> CurrentSampleIndex c' \<and> CurrentSampleIndex c' < 2)"
proof -
  let ?c = "\<lparr> SampleSize = 2, CurrentSampleIndex = 1, Samples = [7, 0 :: real] \<rparr>"
  have n: "(0::int) < 2" by simp
  have inv: "cache_inv ?c" by code_simp
  note inst = cache_inv_established_and_preserved [where 'a = real and ops = real_ops and n = 2 and c = ?c
      and m = "Record 9" and ms = "[Record 7, Ask Q_GetMin, Record 9, Record 1]"]
  from inst n have a: "\<exists>c0 :: real FSampledStatCache. FSampledStatCache_ctor 2 = Inr c0 \<and> cache_inv c0"
    by blast
  from inst inv have "\<exists>a c'. invoke real_ops (Record 9) ?c = Inr (a, c') \<and> cache_inv c' \<and>
      SampleSize c' = SampleSize ?c \<and> length (Samples c') = length (Samples ?c)"
    by blast
  moreover have "SampleSize ?c = 2" "length (Samples ?c) = 2" by simp_all
  ultimately have b: "\<exists>a c'. invoke real_ops (Record 9) ?c = Inr (a, c') \<and> cache_inv c' \<and>
      SampleSize c' = 2 \<and> length (Samples c') = 2"
    by (simp only:)
  from inst n have "\<exists>(c0 :: real FSampledStatCache) as c'.
      FSampledStatCache_ctor 2 = Inr c0 \<and>
      invoke_all real_ops [Record 7, Ask Q_GetMin, Record 9, Record 1] c0 = Inr (as, c') \<and>
      int (length (Samples c')) = SampleSize c' \<and> 0 \<le> CurrentSampleIndex c' \<and>
      CurrentSampleIndex c' < SampleSize c' \<and> SampleSize c' = 2"
    by blast
  then have c: "\<exists>(c0 :: real FSampledStatCache) as c'.
      FSampledStatCache_ctor 2 = Inr c0 \<and>
      invoke_all real_ops [Record 7, Ask Q_GetMin, Record 9, Record 1] c0 = Inr (as, c') \<and>
      int (length (Samples c')) = 2 \<and> 0 \<le> CurrentSampleIndex c' \<and> CurrentSampleIndex c' < 2"
    by metis
  from n inv a b c show ?thesis by blast
qed

text \<open>
  Claim C8. Every query, run as a call, leaves the state it was given: a buffer query
  (\<^verbatim>\<open>GetCurrentCachedStat\<close>, \<^verbatim>\<open>GetLastCachedStat\<close>, \<^verbatim>\<open>ForEachCurrentSample\<close>,
  \<^verbatim>\<open>GetSampleSize\<close>, \<^verbatim>\<open>GetAverage\<close>, \<^verbatim>\<open>GetMin\<close>, \<^verbatim>\<open>GetMax\<close>) returns the buffer
  unchanged, and a registry query (\<^verbatim>\<open>GetCachedStat\<close>, \<^verbatim>\<open>GetCachedStatData\<close>, a buffer
  query through the returned pointer) returns the registry unchanged. So a query
  repeated \<open>k\<close> times returns \<open>k\<close> times the same value, a sequence of queries succeeds
  exactly when each query succeeds on the initial state and then returns the replies
  given on the initial state, and on a well-formed buffer every sequence of queries
  succeeds.
\<close>

theorem queries_read_only:
  fixes r :: "('k, 'a::zero) FLyraPerformanceStatCache"
    and c :: "'a FSampledStatCache"
  shows "(call ops q c = Inr (a, c') \<longrightarrow>
      c' = c \<and> invoke_all ops (replicate k (Ask q)) c = Inr (replicate k a, c)) \<and>
   (invoke_all ops (map Ask qs) c = Inr (as, c'') \<longleftrightarrow>
      c'' = c \<and> list_all2 (\<lambda>q a. call ops q c = Inr (a, c)) qs as) \<and>
   (serve ops rq r = Inr (b, r') \<longrightarrow>
      r' = r \<and> serve_all ops (replicate k rq) r = Inr (replicate k b, r)) \<and>
   (serve_all ops rs r = Inr (bs, r'') \<longleftrightarrow>
      r'' = r \<and> list_all2 (\<lambda>q b. serve ops q r = Inr (b, r)) rs bs) \<and>
   (cache_inv c \<longrightarrow> (\<exists>as. invoke_all ops (map Ask qs) c = Inr (as, c)))"
proof (intro conjI impI)
  show "invoke_all ops (map Ask qs) c = Inr (as, c'') \<longleftrightarrow>
      c'' = c \<and> list_all2 (\<lambda>q a. call ops q c = Inr (a, c)) qs as"
    by (rule invoke_all_Ask_iff)
  show "serve_all ops rs r = Inr (bs, r'') \<longleftrightarrow>
      r'' = r \<and> list_all2 (\<lambda>q b. serve ops q r = Inr (b, r)) rs bs"
    by (rule serve_all_iff)
next
  assume q: "call ops q c = Inr (a, c')"
  then show "c' = c" by (rule call_unchanged)
  with q show "invoke_all ops (replicate k (Ask q)) c = Inr (replicate k a, c)"
    by (simp add: invoke_all_replicate)
next
  assume s: "serve ops rq r = Inr (b, r')"
  then show "r' = r" by (rule serve_unchanged)
  with s show "serve_all ops (replicate k rq) r = Inr (replicate k b, r)"
    by (simp add: serve_all_replicate)
next
  assume inv: "cache_inv c"
  from invoke_all_shape [OF inv, of ops "map Ask qs"] obtain as c1 where
    run: "invoke_all ops (map Ask qs) c = Inr (as, c1)"
    by blast
  then have "c1 = c" by (simp add: invoke_all_Ask_iff)
  with run show "\<exists>as. invoke_all ops (map Ask qs) c = Inr (as, c)" by blast
qed

theorem queries_read_only_witness:
  "serve real_ops (Req_GetCachedStat 0)
     \<lparr> PerfStateCache =
         [0::nat \<mapsto> \<lparr> SampleSize = 3, CurrentSampleIndex = 2, Samples = [4, 5, 3 :: real] \<rparr>] \<rparr> =
     Inr (Value 3,
       \<lparr> PerfStateCache =
         [0::nat \<mapsto> \<lparr> SampleSize = 3, CurrentSampleIndex = 2, Samples = [4, 5, 3 :: real] \<rparr>] \<rparr>) \<and>
   serve_all real_ops (replicate 4 (Req_GetCachedStat 0))
     \<lparr> PerfStateCache =
         [0::nat \<mapsto> \<lparr> SampleSize = 3, CurrentSampleIndex = 2, Samples = [4, 5, 3 :: real] \<rparr>] \<rparr> =
     Inr (replicate 4 (Value 3),
       \<lparr> PerfStateCache =
         [0::nat \<mapsto> \<lparr> SampleSize = 3, CurrentSampleIndex = 2, Samples = [4, 5, 3 :: real] \<rparr>] \<rparr>) \<and>
   call real_ops Q_GetAverage \<lparr> SampleSize = 3, CurrentSampleIndex = 2, Samples = [4, 5, 3 :: real] \<rparr> =
     Inr (Stat 4, \<lparr> SampleSize = 3, CurrentSampleIndex = 2, Samples = [4, 5, 3 :: real] \<rparr>) \<and>
   invoke_all real_ops (replicate 5 (Ask Q_GetAverage))
     \<lparr> SampleSize = 3, CurrentSampleIndex = 2, Samples = [4, 5, 3 :: real] \<rparr> =
     Inr (replicate 5 (Stat 4),
       \<lparr> SampleSize = 3, CurrentSampleIndex = 2, Samples = [4, 5, 3 :: real] \<rparr>) \<and>
   cache_inv \<lparr> SampleSize = 3, CurrentSampleIndex = 2, Samples = [4, 5, 3 :: real] \<rparr> \<and>
   (\<exists>as. invoke_all real_ops (map Ask [Q_GetMin, Q_GetMax, Q_ForEachCurrentSample, Q_GetMin])
       \<lparr> SampleSize = 3, CurrentSampleIndex = 2, Samples = [4, 5, 3 :: real] \<rparr> =
     Inr (as, \<lparr> SampleSize = 3, CurrentSampleIndex = 2, Samples = [4, 5, 3 :: real] \<rparr>))"
proof -
  let ?c = "\<lparr> SampleSize = 3, CurrentSampleIndex = 2, Samples = [4, 5, 3 :: real] \<rparr>"
  let ?r = "\<lparr> PerfStateCache = [0::nat \<mapsto> ?c] \<rparr>"
  have inv: "cache_inv ?c" by code_simp
  have cur: "GetCurrentCachedStat ?c = Inr 3" by code_simp
  have s: "serve real_ops (Req_GetCachedStat 0) ?r = Inr (Value 3, ?r)"
    by (simp add: GetCachedStat_call_eq GetCachedStat_def GetCachedStatData_def cur)
  have avg: "GetAverage real_ops ?c = Inr 4" by code_simp
  have q: "call real_ops Q_GetAverage ?c = Inr (Stat 4, ?c)"
    by (simp add: GetAverage_call_eq avg)
  note inst = queries_read_only [where ops = real_ops and r = ?r and c = ?c
      and rq = "Req_GetCachedStat 0" and b = "Value 3" and r' = ?r
      and q = Q_GetAverage and a = "Stat 4" and c' = ?c
      and qs = "[Q_GetMin, Q_GetMax, Q_ForEachCurrentSample, Q_GetMin]"]
  have a: "serve_all real_ops (replicate 4 (Req_GetCachedStat 0)) ?r =
      Inr (replicate 4 (Value 3), ?r)"
    by (rule inst [where k = 4, THEN conjunct2, THEN conjunct2, THEN conjunct1, THEN mp, OF s,
          THEN conjunct2])
  have b: "invoke_all real_ops (replicate 5 (Ask Q_GetAverage)) ?c =
      Inr (replicate 5 (Stat 4), ?c)"
    by (rule inst [where k = 5, THEN conjunct1, THEN mp, OF q, THEN conjunct2])
  have c: "\<exists>as. invoke_all real_ops
      (map Ask [Q_GetMin, Q_GetMax, Q_ForEachCurrentSample, Q_GetMin]) ?c = Inr (as, ?c)"
    by (rule inst [where k = 0, THEN conjunct2, THEN conjunct2, THEN conjunct2, THEN conjunct2,
          THEN mp, OF inv])
  show ?thesis by (intro conjI) (rule s a q b inv c)+
qed

text \<open>
  Claim C9. On a well-formed buffer \<^verbatim>\<open>ForEachCurrentSample\<close> terminates without an
  error, having called the visitor \<^verbatim>\<open>SampleSize\<close> times: on the slots
  \<open>(CurrentSampleIndex + k) mod SampleSize\<close> for \<open>k = 0, ..., SampleSize - 1\<close>, in this
  order. A second traversal visits the same values, and the buffer is unchanged.
\<close>

theorem ForEachCurrentSample_visits_every_slot_once:
  assumes "cache_inv c"
  shows "(let slots = map (\<lambda>k. Samples c ! nat ((CurrentSampleIndex c + int k) mod SampleSize c))
                      [0..<nat (SampleSize c)]
          in visited c = Inr slots \<and>
             length slots = nat (SampleSize c) \<and>
             ForEachCurrentSample c func st = Inr (foldl (\<lambda>s v. func v s) st slots) \<and>
             invoke_all ops [Ask Q_ForEachCurrentSample, Ask Q_ForEachCurrentSample] c =
               Inr ([Seen slots, Seen slots], c))"
proof -
  have w: "window c =
      map (\<lambda>k. Samples c ! nat ((CurrentSampleIndex c + int k) mod SampleSize c))
        [0..<nat (SampleSize c)]"
    by (rule window_as_map [OF assms])
  have v: "visited c = Inr (window c)" by (rule visited_window [OF assms])
  have f: "ForEachCurrentSample c func st = Inr (foldl (\<lambda>s v. func v s) st (window c))"
    by (rule ForEachCurrentSample_window [OF assms])
  have "ForEachCurrentSample c (\<lambda>Stat seen. seen @ [Stat]) [] = Inr (window c)"
    using v by (simp add: visited_def)
  then have two: "invoke_all ops [Ask Q_ForEachCurrentSample, Ask Q_ForEachCurrentSample] c =
      Inr ([Seen (window c), Seen (window c)], c)"
    by (simp add: ForEachCurrentSample_call_eq)
  have len: "length (window c) = nat (SampleSize c)"
    by (subst w) simp
  from v f two len show ?thesis
    unfolding Let_def w [symmetric] by blast
qed

theorem ForEachCurrentSample_visits_every_slot_once_witness:
  "cache_inv \<lparr> SampleSize = 3, CurrentSampleIndex = 2, Samples = [4, 5, 3 :: real] \<rparr> \<and>
   visited \<lparr> SampleSize = 3, CurrentSampleIndex = 2, Samples = [4, 5, 3 :: real] \<rparr> = Inr [3, 4, 5] \<and>
   ForEachCurrentSample \<lparr> SampleSize = 3, CurrentSampleIndex = 2, Samples = [4, 5, 3 :: real] \<rparr>
     (\<lambda>Stat count. count + (1::nat)) 0 = Inr 3"
proof -
  let ?c = "\<lparr> SampleSize = 3, CurrentSampleIndex = 2, Samples = [4, 5, 3 :: real] \<rparr>"
  have inv: "cache_inv ?c" by code_simp
  have slots: "map (\<lambda>k. Samples ?c ! nat ((CurrentSampleIndex ?c + int k) mod SampleSize ?c))
      [0..<nat (SampleSize ?c)] = [3, 4, 5]"
    by code_simp
  note inst = ForEachCurrentSample_visits_every_slot_once
      [OF inv, where func = "\<lambda>Stat count. count + (1::nat)" and st = 0 and ops = real_ops,
        unfolded Let_def slots]
  have v: "visited ?c = Inr [3, 4, 5]"
    by (rule inst [THEN conjunct1])
  have "ForEachCurrentSample ?c (\<lambda>Stat count. count + (1::nat)) 0 =
      Inr (foldl (\<lambda>s v. s + 1) 0 [3, 4, 5 :: real])"
    by (rule inst [THEN conjunct2, THEN conjunct2, THEN conjunct1])
  then have f: "ForEachCurrentSample ?c (\<lambda>Stat count. count + (1::nat)) 0 = Inr 3"
    by simp
  show ?thesis by (intro conjI) (rule inv v f)+
qed

text \<open>
  Claim C10. After construction with a positive size and any sequence of method calls,
  the array is not empty, so \<^verbatim>\<open>Algo::MinElement\<close> and \<^verbatim>\<open>Algo::MaxElement\<close> return
  a pointer to an element and \<^verbatim>\<open>GetMin\<close> and \<^verbatim>\<open>GetMax\<close> return its value. The two
  algorithms return null on the empty array only.
\<close>

theorem GetMin_GetMax_dereference_defined:
  fixes ms :: "('a::zero) Method list"
  shows "(0 < n \<longrightarrow>
      (\<exists>(c0 :: 'a FSampledStatCache) as c m M.
         FSampledStatCache_ctor n = Inr c0 \<and> invoke_all ops ms c0 = Inr (as, c) \<and>
         Samples c \<noteq> [] \<and>
         Algo_MinElement (dbl_less ops) (Samples c) = Some m \<and> GetMin (dbl_less ops) c = Inr m \<and>
         Algo_MaxElement (dbl_less ops) (Samples c) = Some M \<and> GetMax (dbl_less ops) c = Inr M)) \<and>
   (Algo_MinElement lt xs = None) = (xs = []) \<and>
   (Algo_MaxElement lt xs = None) = (xs = [])"
proof (intro conjI impI)
  assume n: "0 < n"
  from reachable_shape [OF n, of ops ms] obtain c0 :: "'a FSampledStatCache" and as c where
    run: "FSampledStatCache_ctor n = Inr c0" "invoke_all ops ms c0 = Inr (as, c)"
    and inv: "cache_inv c"
    by blast
  have ne: "Samples c \<noteq> []" by (rule cache_inv_nonempty [OF inv])
  from GetMin_ok [OF inv, of "dbl_less ops"] obtain m where
    m: "Algo_MinElement (dbl_less ops) (Samples c) = Some m" "GetMin (dbl_less ops) c = Inr m"
    by blast
  from GetMax_ok [OF inv, of "dbl_less ops"] obtain M where
    M: "Algo_MaxElement (dbl_less ops) (Samples c) = Some M" "GetMax (dbl_less ops) c = Inr M"
    by blast
  from run ne m M
  show "\<exists>(c0 :: 'a FSampledStatCache) as c m M.
      FSampledStatCache_ctor n = Inr c0 \<and> invoke_all ops ms c0 = Inr (as, c) \<and>
      Samples c \<noteq> [] \<and>
      Algo_MinElement (dbl_less ops) (Samples c) = Some m \<and> GetMin (dbl_less ops) c = Inr m \<and>
      Algo_MaxElement (dbl_less ops) (Samples c) = Some M \<and> GetMax (dbl_less ops) c = Inr M"
    by blast
next
  show "(Algo_MinElement lt xs = None) = (xs = [])" by (rule Algo_MinElement_None)
  show "(Algo_MaxElement lt xs = None) = (xs = [])" by (rule Algo_MaxElement_None)
qed

theorem GetMin_GetMax_dereference_defined_witness:
  "(0::int) < 2 \<and>
   (\<exists>(c0 :: real FSampledStatCache) as c m M.
      FSampledStatCache_ctor 2 = Inr c0 \<and>
      invoke_all real_ops [Record 7, Ask Q_GetMax, Record (- 1), Record 4] c0 = Inr (as, c) \<and>
      Samples c \<noteq> [] \<and> GetMin (dbl_less real_ops) c = Inr m \<and>
      GetMax (dbl_less real_ops) c = Inr M)"
proof -
  have n: "(0::int) < 2" by simp
  from GetMin_GetMax_dereference_defined
    [where 'a = real and ops = real_ops and n = 2
      and ms = "[Record 7, Ask Q_GetMax, Record (- 1), Record 4]",
      THEN conjunct1, THEN mp, OF n]
  obtain c0 :: "real FSampledStatCache" and as c m M where
    "FSampledStatCache_ctor 2 = Inr c0"
    "invoke_all real_ops [Record 7, Ask Q_GetMax, Record (- 1), Record 4] c0 = Inr (as, c)"
    "Samples c \<noteq> []" "GetMin (dbl_less real_ops) c = Inr m" "GetMax (dbl_less real_ops) c = Inr M"
    by blast
  with n show ?thesis by blast
qed

end
